theory Spec2Isabelle
  imports Main "HOL-Library.Sublist"
begin

section \<open>Data model of \<^verbatim>\<open>anonymizer.py\<close>\<close>

text \<open>
  Python strings are sequences of code points; a \<open>string\<close> here is a list whose elements
  stand for the code points of the Python string, so that \<open>length\<close> is Python's \<open>len\<close>.
  Python integers are unbounded: \<open>int\<close>.

  A span is the tuple \<open>(start, end, label)\<close>. The primary path stores converted integers,
  the fallback path stores the tokens' \<open>start_char\<close> and \<open>end_char\<close> as they are, and
  those may be Python's \<open>None\<close> (the source declares them \<open>Optional[int]\<close> and tests them
  with \<open>is not None\<close>). An offset is therefore an \<open>int option\<close>, \<open>None\<close> being Python's
  \<open>None\<close>.
\<close>

datatype py_error = TypeError

type_synonym span = "int \<times> int \<times> string"
type_synonym raw_span = "int option \<times> int option \<times> string"

text \<open>A list of integer spans, as the list of Python tuples it is at run time.\<close>

definition ispan :: "span \<Rightarrow> raw_span" where
  "ispan x = (case x of (s, e, l) \<Rightarrow> (Some s, Some e, l))"

text \<open>
  An entity record of \<open>doc.ents\<close>. The three fields hold the outcome of the three
  expressions of the \<open>try\<close> block, \<open>int(ent.start_char)\<close>, \<open>int(ent.end_char)\<close> and
  \<open>str(ent.type)\<close>: \<open>None\<close> when the attribute read or the conversion raises an
  \<open>Exception\<close> (missing attribute, non-numeric value), \<open>Some v\<close> when it returns \<open>v\<close>.
\<close>

record entity =
  int_start_char :: "int option"
  int_end_char :: "int option"
  str_type :: "string option"

text \<open>
  A token: \<open>start_char\<close> and \<open>end_char\<close> are an integer or Python's \<open>None\<close>; \<open>ner\<close> is
  \<open>None\<close> when the token has no attribute \<open>ner\<close> (then \<open>getattr\<close> gives \<open>"O"\<close>).
\<close>

record token =
  start_char :: "int option"
  end_char :: "int option"
  ner :: "string option"

text \<open>
  A sentence is its list of tokens (\<open>getattr(sent, "tokens", [])\<close>); a parsed document
  has \<open>ents\<close> (\<open>None\<close> when the attribute is absent or \<open>None\<close>) and its sentences.
\<close>

record doc =
  ents :: "entity list option"
  sentences :: "token list list"

section \<open>Python primitives used by the source\<close>

text \<open>
  \<open>text[lo:hi]\<close> and \<open>text[lo:]\<close> on integers: a negative index counts from the end, and
  both ends are clamped to the string; slicing never raises.
\<close>

definition clamp_index :: "int \<Rightarrow> int \<Rightarrow> int" where
  "clamp_index n i = (if i < 0 then max (i + n) 0 else min i n)"

definition py_slice :: "'a list \<Rightarrow> int \<Rightarrow> int \<Rightarrow> 'a list" where
  "py_slice xs lo hi =
     (let n = int (length xs); a = clamp_index n lo; b = clamp_index n hi
      in take (nat (b - a)) (drop (nat a) xs))"

definition py_slice_from :: "'a list \<Rightarrow> int \<Rightarrow> 'a list" where
  "py_slice_from xs lo = drop (nat (clamp_index (int (length xs)) lo)) xs"

text \<open>
  \<open>s.split(sep)\<close> for a one-character separator: the pieces between the separators, never
  an empty list (\<open>"".split("-")\<close> is \<open>[""]\<close>).
\<close>

fun py_split :: "char \<Rightarrow> string \<Rightarrow> string list" where
  "py_split sep [] = [[]]"
| "py_split sep (c # cs) =
     (if c = sep then [] # py_split sep cs
      else (c # hd (py_split sep cs)) # tl (py_split sep cs))"

text \<open>
  \<open>sorted(spans, key=lambda x: x[0])\<close>: a stable sort on the first component. Comparing
  \<open>None\<close> with anything raises \<open>TypeError\<close>, and with two or more elements every element
  is compared at least once; a list of at most one element is returned without any
  comparison. The key \<open>start_key\<close> is the start; its value at \<open>None\<close> is never compared.
\<close>

definition start_key :: "raw_span \<Rightarrow> int" where
  "start_key x = (case fst x of Some s \<Rightarrow> s | None \<Rightarrow> 0)"

definition py_sorted :: "raw_span list \<Rightarrow> py_error + raw_span list" where
  "py_sorted spans =
     (if 2 \<le> length spans \<and> list_ex (\<lambda>x. fst x = None) spans then Inl TypeError
      else Inr (sort_key start_key spans))"

section \<open>The primary path: \<^verbatim>\<open>_spans_from_doc_ents\<close>\<close>

text \<open>The body of the \<open>for ent in ents\<close> loop, on the list built so far.\<close>

definition ent_step :: "raw_span list \<Rightarrow> entity \<Rightarrow> raw_span list" where
  "ent_step spans_local ent =
     (case int_start_char ent of
        None \<Rightarrow> spans_local
      | Some start \<Rightarrow>
         (case int_end_char ent of
            None \<Rightarrow> spans_local
          | Some en \<Rightarrow>
             (case str_type ent of
                None \<Rightarrow> spans_local
              | Some label \<Rightarrow>
                 (if start < en then spans_local @ [(Some start, Some en, label)]
                  else spans_local))))"

definition spans_from_doc_ents :: "doc \<Rightarrow> raw_span list" where
  "spans_from_doc_ents doc_obj =
     (case ents doc_obj of
        None \<Rightarrow> []
      | Some es \<Rightarrow> if es = [] then [] else foldl ent_step [] es)"

section \<open>The fallback path: \<^verbatim>\<open>_spans_from_tokens\<close>\<close>

record tok_state =
  spans_local :: "raw_span list"
  cur_start :: "int option"
  cur_end :: "int option"
  cur_type :: "string option"

definition init_state :: tok_state where
  "init_state = \<lparr>spans_local = [], cur_start = None, cur_end = None, cur_type = None\<rparr>"

text \<open>
  \<open>if cur_start is not None and cur_end is not None and cur_type is not None:
  spans_local.append((cur_start, cur_end, cur_type))\<close>
\<close>

definition append_if_open :: "tok_state \<Rightarrow> tok_state" where
  "append_if_open st =
     (case cur_start st of
        None \<Rightarrow> st
      | Some s \<Rightarrow>
         (case cur_end st of
            None \<Rightarrow> st
          | Some e \<Rightarrow>
             (case cur_type st of
                None \<Rightarrow> st
              | Some t \<Rightarrow> st\<lparr>spans_local := spans_local st @ [(Some s, Some e, t)]\<rparr>)))"

text \<open>\<open>cur_start = cur_end = cur_type = None\<close>\<close>

definition clear :: "tok_state \<Rightarrow> tok_state" where
  "clear st = st\<lparr>cur_start := None, cur_end := None, cur_type := None\<rparr>"

text \<open>
  The \<open>E\<close>/\<open>L\<close> emission, inside the branch where \<open>cur_start is not None\<close>:
  \<open>if cur_end is not None and cur_type is not None: spans_local.append(...)\<close>
\<close>

definition append_if_ended :: "tok_state \<Rightarrow> tok_state" where
  "append_if_ended st =
     (case cur_end st of
        None \<Rightarrow> st
      | Some e \<Rightarrow>
         (case cur_type st of
            None \<Rightarrow> st
          | Some t \<Rightarrow> st\<lparr>spans_local := spans_local st @ [(cur_start st, Some e, t)]\<rparr>))"

definition ner_tag_of :: "token \<Rightarrow> string" where
  "ner_tag_of tok = (case ner tok of None \<Rightarrow> ''O'' | Some t \<Rightarrow> t)"

definition prefix_of :: "string \<Rightarrow> string" where
  "prefix_of ner_tag = hd (py_split CHR ''-'' ner_tag)"

definition ent_type_of :: "string \<Rightarrow> string" where
  "ent_type_of ner_tag = last (py_split CHR ''-'' ner_tag)"

text \<open>The body of the \<open>for token in ...\<close> loop.\<close>

definition token_step :: "tok_state \<Rightarrow> token \<Rightarrow> tok_state" where
  "token_step st tok =
     (let ner_tag = ner_tag_of tok in
      if ner_tag = ''O'' then clear (append_if_open st)
      else
        let prefix = prefix_of ner_tag; ent_type = ent_type_of ner_tag in
        if prefix \<in> set [''B'', ''S'', ''U''] then
          (let st1 = (append_if_open st)
                        \<lparr>cur_start := start_char tok, cur_end := end_char tok,
                         cur_type := Some ent_type\<rparr>
           in if prefix \<in> set [''S'', ''U''] then clear (append_if_open st1) else st1)
        else if prefix \<in> set [''I'', ''E'', ''L''] then
          (if cur_type st = Some ent_type \<and> cur_start st \<noteq> None then
             (let st1 = st\<lparr>cur_end := end_char tok\<rparr>
              in if prefix \<in> set [''E'', ''L''] then clear (append_if_ended st1) else st1)
           else
             clear (st\<lparr>spans_local :=
                        spans_local st @ [(start_char tok, end_char tok, ent_type)]\<rparr>))
        else st)"

text \<open>
  The body of the \<open>for sent in ...\<close> loop: the tokens, then the emission of a span still
  open; the state is cleared only when that span is emitted.
\<close>

definition is_open :: "tok_state \<Rightarrow> bool" where
  "is_open st = (cur_start st \<noteq> None \<and> cur_end st \<noteq> None \<and> cur_type st \<noteq> None)"

definition sentence_step :: "tok_state \<Rightarrow> token list \<Rightarrow> tok_state" where
  "sentence_step st sent =
     (let st1 = foldl token_step st sent
      in if is_open st1 then clear (append_if_open st1) else st1)"

definition spans_from_tokens :: "doc \<Rightarrow> raw_span list" where
  "spans_from_tokens doc_obj = spans_local (foldl sentence_step init_state (sentences doc_obj))"

section \<open>The redaction pass\<close>

text \<open>
  The \<open>for start, end, label in spans_sorted\<close> loop on the pair \<open>(result_parts, last_idx)\<close>.
  \<open>start >= end\<close> is evaluated first and raises \<open>TypeError\<close> when either side is \<open>None\<close>.
\<close>

fun sweep :: "string \<Rightarrow> raw_span list \<Rightarrow> string list \<times> int \<Rightarrow> py_error + string list \<times> int" where
  "sweep text [] acc = Inr acc"
| "sweep text ((Some start, Some en, label) # rest) (result_parts, last_idx) =
     (if start \<ge> en \<or> start < last_idx then sweep text rest (result_parts, last_idx)
      else sweep text rest
             (result_parts @ [py_slice text last_idx start, ''['' @ label @ '']''], en))"
| "sweep text (_ # rest) acc = Inl TypeError"

text \<open>Lines 127 to 136: the list \<open>result_parts\<close> as it is when it is joined.\<close>

definition result_parts_of :: "string \<Rightarrow> raw_span list \<Rightarrow> py_error + string list" where
  "result_parts_of text spans =
     (case py_sorted spans of
        Inl e \<Rightarrow> Inl e
      | Inr spans_sorted \<Rightarrow>
         (case sweep text spans_sorted ([], 0) of
            Inl e \<Rightarrow> Inl e
          | Inr (result_parts, last_idx) \<Rightarrow>
              Inr (result_parts @ [py_slice_from text last_idx])))"

definition redact :: "string \<Rightarrow> raw_span list \<Rightarrow> py_error + string" where
  "redact text spans =
     (case result_parts_of text spans of Inl e \<Rightarrow> Inl e | Inr ps \<Rightarrow> Inr (concat ps))"

text \<open>
  \<open>anonymize_with_stanza\<close>, with the document \<open>doc = nlp(text)\<close> of the external tagger
  as a parameter.
\<close>

definition anonymize_with_stanza :: "string \<Rightarrow> doc \<Rightarrow> py_error + string" where
  "anonymize_with_stanza text doc_obj =
     (let spans = spans_from_doc_ents doc_obj;
          spans = (if spans = [] then spans_from_tokens doc_obj else spans)
      in redact text spans)"

section \<open>Notions the claims speak of\<close>

text \<open>
  The spans the sweep accepts, from \<open>last_idx\<close> on: the spans that pass the guard
  \<open>start >= end or start < last_idx\<close>, with \<open>last_idx\<close> moved to the end of each accepted
  span as the loop does.
\<close>

fun accepted :: "int \<Rightarrow> span list \<Rightarrow> span list" where
  "accepted last_idx [] = []"
| "accepted last_idx ((start, en, label) # rest) =
     (if start \<ge> en \<or> start < last_idx then accepted last_idx rest
      else (start, en, label) # accepted en rest)"

text \<open>The spans accepted for a span list: sorted by start (stable), then swept from 0.\<close>

definition accepted_spans :: "span list \<Rightarrow> span list" where
  "accepted_spans spans = accepted 0 (sort_key fst spans)"

text \<open>The text that stands for an accepted span: \<open>f"[{label}]"\<close>.\<close>

definition replacement :: "span \<Rightarrow> string" where
  "replacement x = (case x of (s, e, label) \<Rightarrow> ''['' @ label @ '']'')"

text \<open>
  The pieces of the input between the accepted spans: from \<open>last_idx\<close> to the first
  start, from each end to the next start, and from the last end to the end of the input.
\<close>

fun gaps :: "string \<Rightarrow> int \<Rightarrow> span list \<Rightarrow> string list" where
  "gaps text last_idx [] = [py_slice_from text last_idx]"
| "gaps text last_idx ((start, en, label) # rest) = py_slice text last_idx start # gaps text en rest"

text \<open>Position \<open>i\<close> lies inside one of the spans (half-open, \<open>start \<le> i < end\<close>).\<close>

definition covered :: "span list \<Rightarrow> int \<Rightarrow> bool" where
  "covered acc i = list_ex (\<lambda>(s, e, l). s \<le> i \<and> i < e) acc"

text \<open>
  The characters of a string whose first character has position \<open>i\<close> that lie outside
  every span, in their order; \<open>outside\<close> is that for the whole input.
\<close>

fun outside_from :: "int \<Rightarrow> string \<Rightarrow> span list \<Rightarrow> string" where
  "outside_from i [] acc = []"
| "outside_from i (c # cs) acc =
     (if covered acc i then outside_from (i + 1) cs acc else c # outside_from (i + 1) cs acc)"

definition outside :: "string \<Rightarrow> span list \<Rightarrow> string" where
  "outside text acc = outside_from 0 text acc"

text \<open>
  A list of spans is a chain from \<open>last_idx\<close> when each span starts at or after the end
  of the one before (the first at or after \<open>last_idx\<close>) and ends after its start.
\<close>

fun chain :: "int \<Rightarrow> span list \<Rightarrow> bool" where
  "chain last_idx [] = True"
| "chain last_idx ((s, e, l) # rest) = (last_idx \<le> s \<and> s < e \<and> chain e rest)"

text \<open>The parts the sweep appends for a list of accepted spans, with the final piece.\<close>

fun spliced :: "string \<Rightarrow> int \<Rightarrow> span list \<Rightarrow> string list" where
  "spliced text last_idx [] = [py_slice_from text last_idx]"
| "spliced text last_idx ((s, e, l) # rest) =
     py_slice text last_idx s # replacement (s, e, l) # spliced text e rest"

text \<open>A span whose two offsets are integers, as the source's type for spans says.\<close>

definition has_int_offsets :: "raw_span \<Rightarrow> bool" where
  "has_int_offsets x = (fst x \<noteq> None \<and> fst (snd x) \<noteq> None)"

text \<open>A span with integer offsets and \<open>start < end\<close>.\<close>

definition proper_span :: "raw_span \<Rightarrow> bool" where
  "proper_span x =
     (case fst x of
        None \<Rightarrow> False
      | Some s \<Rightarrow> (case fst (snd x) of None \<Rightarrow> False | Some e \<Rightarrow> s < e))"

text \<open>
  A token with integer offsets and \<open>start_char < end_char\<close>; a sentence whose tokens are
  all such and come in non-decreasing order of \<open>start_char\<close>.
\<close>

definition token_ok :: "token \<Rightarrow> bool" where
  "token_ok tok =
     (case start_char tok of
        None \<Rightarrow> False
      | Some s \<Rightarrow> (case end_char tok of None \<Rightarrow> False | Some e \<Rightarrow> s < e))"

definition start_of :: "token \<Rightarrow> int" where
  "start_of tok = (case start_char tok of None \<Rightarrow> 0 | Some s \<Rightarrow> s)"

definition sentence_ok :: "token list \<Rightarrow> bool" where
  "sentence_ok sent = (list_all token_ok sent \<and> sorted (map start_of sent))"

text \<open>
  The invariant of the token loop on such sentences: the spans emitted so far are proper,
  and the open-span state is either cleared or a span with \<open>start < end\<close> and a type;
  \<open>start_bound\<close> says that an open span starts at or before \<open>b\<close>.
\<close>

definition state_ok :: "tok_state \<Rightarrow> bool" where
  "state_ok st =
     (list_all proper_span (spans_local st) \<and>
      (case cur_start st of
         None \<Rightarrow> cur_end st = None \<and> cur_type st = None
       | Some s \<Rightarrow> (case cur_end st of None \<Rightarrow> False | Some e \<Rightarrow> s < e \<and> cur_type st \<noteq> None)))"

definition start_bound :: "tok_state \<Rightarrow> int \<Rightarrow> bool" where
  "start_bound st b = (case cur_start st of None \<Rightarrow> True | Some s \<Rightarrow> s \<le> b)"

section \<open>The redaction pass: lemmas\<close>

lemma start_key_ispan: "start_key (ispan x) = fst x"
  by (cases x) (simp add: start_key_def ispan_def)

lemma insort_key_ispan:
  "insort_key start_key (ispan x) (map ispan xs) = map ispan (insort_key fst x xs)"
  by (induction xs) (simp_all add: start_key_ispan)

lemma sort_key_ispan: "sort_key start_key (map ispan xs) = map ispan (sort_key fst xs)"
  by (induction xs) (simp_all add: insort_key_ispan)

lemma no_None_ispan: "\<not> list_ex (\<lambda>x. fst x = None) (map ispan xs)"
  by (induction xs) (auto simp: ispan_def)

lemma py_sorted_ispan: "py_sorted (map ispan xs) = Inr (map ispan (sort_key fst xs))"
  by (simp add: py_sorted_def no_None_ispan sort_key_ispan)

lemma sweep_ispan:
  "\<exists>ps li. sweep text (map ispan xs) (parts, last_idx) = Inr (ps, li) \<and>
     ps @ [py_slice_from text li] = parts @ spliced text last_idx (accepted last_idx xs)"
proof (induction xs arbitrary: parts last_idx)
  case Nil
  then show ?case by simp
next
  case (Cons x xs)
  obtain s e l where x: "x = (s, e, l)" by (cases x) auto
  show ?case
  proof (cases "s \<ge> e \<or> s < last_idx")
    case True
    then show ?thesis using Cons.IH [of parts last_idx] by (simp add: x ispan_def)
  next
    case False
    then show ?thesis
      using Cons.IH [of "parts @ [py_slice text last_idx s, ''['' @ l @ '']'']" e]
      by (simp add: x ispan_def replacement_def)
  qed
qed

lemma spliced_splice:
  "spliced text last_idx acc = splice (gaps text last_idx acc) (map replacement acc)"
  by (induction acc arbitrary: last_idx) auto

lemma length_gaps: "length (gaps text last_idx acc) = length acc + 1"
  by (induction acc arbitrary: last_idx) auto

lemma result_parts_ispan:
  "result_parts_of text (map ispan spans) = Inr (spliced text 0 (accepted_spans spans))"
proof -
  obtain ps li where h: "sweep text (map ispan (sort_key fst spans)) ([], 0) = Inr (ps, li)"
    and e: "ps @ [py_slice_from text li] = [] @ spliced text 0 (accepted 0 (sort_key fst spans))"
    using sweep_ispan [of "text" "sort_key fst spans" "[]" 0] by blast
  show ?thesis
    using e by (simp add: result_parts_of_def py_sorted_ispan h accepted_spans_def)
qed

lemma chain_accepted: "chain last_idx (accepted last_idx xs)"
  by (induction xs arbitrary: last_idx) auto

lemma covered_Cons: "covered ((s, e, l) # rest) i = ((s \<le> i \<and> i < e) \<or> covered rest i)"
  by (simp add: covered_def)

lemma covered_Nil: "covered [] i = False"
  by (simp add: covered_def)

lemma chain_not_covered: "chain last_idx acc \<Longrightarrow> j < last_idx \<Longrightarrow> \<not> covered acc j"
proof (induction acc arbitrary: last_idx)
  case Nil
  then show ?case by (simp add: covered_Nil)
next
  case (Cons x acc)
  obtain s e l where x: "x = (s, e, l)" by (cases x) auto
  from Cons.prems have c: "last_idx \<le> s" "s < e" "chain e acc" by (simp_all add: x)
  have "\<not> covered acc j" using Cons.IH [OF c(3)] Cons.prems(2) c by simp
  then show ?case using Cons.prems(2) c by (simp add: x covered_Cons)
qed

lemma outside_from_Nil: "outside_from i cs [] = cs"
  by (induction cs arbitrary: i) (simp_all add: covered_def)

lemma outside_from_step:
  "s < e \<Longrightarrow> chain e rest \<Longrightarrow>
   outside_from i cs ((s, e, l) # rest) =
     take (nat (s - i)) cs @ outside_from (max e i) (drop (nat (e - i)) cs) rest"
proof (induction cs arbitrary: i)
  case Nil
  then show ?case by simp
next
  case (Cons c cs)
  have ih: "outside_from (i + 1) cs ((s, e, l) # rest) =
     take (nat (s - (i + 1))) cs @ outside_from (max e (i + 1)) (drop (nat (e - (i + 1))) cs) rest"
    using Cons.IH [of "i + 1"] Cons.prems by simp
  consider "i < s" | "s \<le> i" "i < e" | "e \<le> i" by linarith
  then show ?case
  proof cases
    case 1
    then have nc: "\<not> covered ((s, e, l) # rest) i"
      using chain_not_covered [OF Cons.prems(2), of i] Cons.prems(1) by (simp add: covered_Cons)
    have ns: "nat (s - i) = Suc (nat (s - (i + 1)))" using 1 by simp
    have ne: "nat (e - i) = Suc (nat (e - (i + 1)))" using 1 Cons.prems(1) by simp
    have t: "take (nat (s - i)) (c # cs) = c # take (nat (s - (i + 1))) cs"
      by (simp only: ns take_Suc_Cons)
    have d: "drop (nat (e - i)) (c # cs) = drop (nat (e - (i + 1))) cs"
      by (simp only: ne drop_Suc_Cons)
    have m: "max e (i + 1) = max e i" using 1 Cons.prems(1) by simp
    show ?thesis using nc ih t d m by simp
  next
    case 2
    then have cv: "covered ((s, e, l) # rest) i" by (simp add: covered_Cons)
    have t: "take (nat (s - i)) (c # cs) = []" "take (nat (s - (i + 1))) cs = []"
      using 2 by simp_all
    have ne: "nat (e - i) = Suc (nat (e - (i + 1)))" using 2 by simp
    have d: "drop (nat (e - i)) (c # cs) = drop (nat (e - (i + 1))) cs"
      by (simp only: ne drop_Suc_Cons)
    have m: "max e (i + 1) = max e i" using 2 by simp
    show ?thesis using cv ih t d m by simp
  next
    case 3
    then have cv: "covered ((s, e, l) # rest) i = covered rest i"
      using Cons.prems(1) by (simp add: covered_Cons)
    have t: "take (nat (s - i)) (c # cs) = []" "take (nat (s - (i + 1))) cs = []"
      using 3 Cons.prems(1) by simp_all
    have d: "drop (nat (e - i)) (c # cs) = c # cs" "drop (nat (e - (i + 1))) cs = cs"
      using 3 by simp_all
    have m: "max e (i + 1) = i + 1" "max e i = i" using 3 by simp_all
    show ?thesis using cv ih t d m by simp
  qed
qed

lemma py_slice_nonneg:
  "0 \<le> lo \<Longrightarrow> lo \<le> hi \<Longrightarrow> py_slice xs lo hi = take (nat (hi - lo)) (drop (nat lo) xs)"
  by (auto simp: py_slice_def clamp_index_def Let_def min_def)

lemma py_slice_from_nonneg: "0 \<le> lo \<Longrightarrow> py_slice_from xs lo = drop (nat lo) xs"
  by (auto simp: py_slice_from_def clamp_index_def min_def)

lemma concat_gaps:
  "chain last_idx acc \<Longrightarrow> 0 \<le> last_idx \<Longrightarrow>
   concat (gaps text last_idx acc) = outside_from last_idx (drop (nat last_idx) text) acc"
proof (induction acc arbitrary: last_idx)
  case Nil
  then show ?case by (simp add: py_slice_from_nonneg outside_from_Nil)
next
  case (Cons x acc)
  obtain s e l where x: "x = (s, e, l)" by (cases x) auto
  from Cons.prems have c: "last_idx \<le> s" "s < e" "chain e acc" by (simp_all add: x)
  have ih: "concat (gaps text e acc) = outside_from e (drop (nat e) text) acc"
    using Cons.IH [of e] c Cons.prems(2) by simp
  have dd: "drop (nat (e - last_idx)) (drop (nat last_idx) text) = drop (nat e) text"
  proof -
    have "nat (e - last_idx) + nat last_idx = nat e" using c Cons.prems(2) by simp
    then show ?thesis by (simp only: drop_drop)
  qed
  have m: "max e last_idx = e" using c by simp
  have st: "outside_from last_idx (drop (nat last_idx) text) ((s, e, l) # acc) =
      take (nat (s - last_idx)) (drop (nat last_idx) text) @
      outside_from e (drop (nat e) text) acc"
    using outside_from_step [OF c(2) c(3), of last_idx "drop (nat last_idx) text" l]
    by (simp only: dd m)
  show ?case
    by (simp add: x ih st py_slice_nonneg c(1) Cons.prems(2))
qed

lemma concat_gaps_outside:
  "concat (gaps text 0 (accepted_spans spans)) = outside text (accepted_spans spans)"
  using concat_gaps [of 0 "accepted_spans spans" "text"] chain_accepted [of 0 "sort_key fst spans"]
  by (simp add: accepted_spans_def outside_def)

lemma subseq_accepted: "subseq (accepted last_idx xs) xs"
proof (induction xs arbitrary: last_idx)
  case Nil
  then show ?case by simp
next
  case (Cons x xs)
  obtain s e l where x: "x = (s, e, l)" by (cases x) auto
  show ?case
  proof (cases "s \<ge> e \<or> s < last_idx")
    case True
    then have "accepted last_idx (x # xs) = accepted last_idx xs" by (simp add: x)
    then show ?thesis using list_emb_Cons [OF Cons.IH [of last_idx], of x] by simp
  next
    case False
    then have "accepted last_idx (x # xs) = x # accepted e xs" by (simp add: x)
    then show ?thesis using Cons.IH [of e] by simp
  qed
qed

lemma chain_lower:
  "chain last_idx acc \<Longrightarrow> x \<in> set acc \<Longrightarrow> last_idx \<le> fst x \<and> fst x < fst (snd x)"
proof (induction acc arbitrary: last_idx)
  case Nil
  then show ?case by simp
next
  case (Cons y acc)
  obtain s e l where y: "y = (s, e, l)" by (cases y) auto
  from Cons.prems(1) have c: "last_idx \<le> s" "s < e" "chain e acc" by (simp_all add: y)
  show ?case
  proof (cases "x = y")
    case True
    then show ?thesis using c by (simp add: y)
  next
    case False
    then have "x \<in> set acc" using Cons.prems(2) by simp
    then have "e \<le> fst x \<and> fst x < fst (snd x)" using Cons.IH [OF c(3)] by simp
    then show ?thesis using c by simp
  qed
qed

lemma chain_sorted_wrt:
  "chain last_idx acc \<Longrightarrow> sorted_wrt (\<lambda>a b. fst a < fst b \<and> fst (snd a) \<le> fst b) acc"
proof (induction acc arbitrary: last_idx)
  case Nil
  then show ?case by simp
next
  case (Cons y acc)
  obtain s e l where y: "y = (s, e, l)" by (cases y) auto
  from Cons.prems(1) have c: "last_idx \<le> s" "s < e" "chain e acc" by (simp_all add: y)
  have "\<forall>x\<in>set acc. s < fst x \<and> e \<le> fst x"
    using chain_lower [OF c(3)] c(2) by fastforce
  then show ?case using Cons.IH [OF c(3)] by (simp add: y)
qed

lemma chain_list_all:
  "chain last_idx acc \<Longrightarrow> 0 \<le> last_idx \<Longrightarrow> list_all (\<lambda>(s, e, l). 0 \<le> s \<and> s < e) acc"
  using chain_lower [of last_idx acc] by (fastforce simp: list_all_iff)

lemma redact_ispan:
  "redact text (map ispan spans) =
     Inr (concat (splice (gaps text 0 (accepted_spans spans))
                         (map replacement (accepted_spans spans))))"
  by (simp add: redact_def result_parts_ispan spliced_splice)

lemma sweep_discard:
  "s \<ge> e \<or> s < last_idx \<Longrightarrow>
   sweep text ((Some s, Some e, l) # rest) (parts, last_idx) = sweep text rest (parts, last_idx)"
  by simp

section \<open>Claims on the redaction pass\<close>

text \<open>
  C1 (content preservation of the redactor). For every input string and every list of
  integer spans, the parts joined into the output are the pieces of the input between
  the accepted spans, alternating with the text \<open>[label]\<close> of each accepted span in
  order; there is one piece more than there are accepted spans; and the pieces, put
  together, are exactly the characters of the input that lie outside every accepted
  span, each once and in the input's order.
\<close>

theorem redactor_content_preservation:
  "result_parts_of text (map ispan spans) =
     Inr (splice (gaps text 0 (accepted_spans spans)) (map replacement (accepted_spans spans)))
   \<and> redact text (map ispan spans) =
     Inr (concat (splice (gaps text 0 (accepted_spans spans))
                         (map replacement (accepted_spans spans))))
   \<and> length (gaps text 0 (accepted_spans spans)) = length (accepted_spans spans) + 1
   \<and> concat (gaps text 0 (accepted_spans spans)) = outside text (accepted_spans spans)"
  by (simp add: result_parts_ispan spliced_splice redact_ispan length_gaps concat_gaps_outside)

theorem redactor_content_preservation_witness:
  "accepted_spans [(4, 5, ''B''), (1, 3, ''A''), (2, 6, ''C'')] = [(1, 3, ''A''), (4, 5, ''B'')]
   \<and> redact ''abcdef'' [(Some 4, Some 5, ''B''), (Some 1, Some 3, ''A''), (Some 2, Some 6, ''C'')]
       = Inr ''a[A]d[B]f''
   \<and> outside ''abcdef'' [(1, 3, ''A''), (4, 5, ''B'')] = ''adf''
   \<and> gaps ''abcdef'' 0 [(1, 3, ''A''), (4, 5, ''B'')] = [''a'', ''d'', ''f'']"
proof -
  have a: "accepted_spans [(4, 5, ''B''), (1, 3, ''A''), (2, 6, ''C'')]
             = [(1, 3, ''A''), (4, 5, ''B'')]"
    by (simp add: accepted_spans_def)
  have g: "gaps ''abcdef'' 0 [(1, 3, ''A''), (4, 5, ''B'')] = [''a'', ''d'', ''f'']"
    by (simp add: py_slice_def py_slice_from_def clamp_index_def)
  have m: "map ispan [(4, 5, ''B''), (1, 3, ''A''), (2, 6, ''C'')]
             = [(Some 4, Some 5, ''B''), (Some 1, Some 3, ''A''), (Some 2, Some 6, ''C'')]"
    by (simp add: ispan_def)
  note t = redactor_content_preservation
      [of "''abcdef''" "[(4, 5, ''B''), (1, 3, ''A''), (2, 6, ''C'')]", unfolded a g m]
  from t have r: "redact ''abcdef''
      [(Some 4, Some 5, ''B''), (Some 1, Some 3, ''A''), (Some 2, Some 6, ''C'')]
       = Inr ''a[A]d[B]f''"
    by (simp add: replacement_def)
  from t have o: "outside ''abcdef'' [(1, 3, ''A''), (4, 5, ''B'')] = ''adf''"
    by simp
  show ?thesis using a g r o by simp
qed

text \<open>
  C2 (accepted-span invariant). For every span list, sorted or not, overlapping or not:
  the accepted spans are a subsequence of the sorted list (each one an input span as it
  was given, none truncated or merged), each has \<open>0 \<le> start < end\<close>, each one starts
  after the start and at or after the end of every accepted span before it; the output
  is built from the accepted spans alone; and a span with \<open>start \<ge> end\<close> or with a start
  before \<open>last_idx\<close> leaves both the parts and \<open>last_idx\<close> of the sweep as they were.
\<close>

theorem accepted_span_invariant:
  "subseq (accepted_spans spans) (sort_key fst spans)
   \<and> list_all (\<lambda>(s, e, l). 0 \<le> s \<and> s < e) (accepted_spans spans)
   \<and> sorted_wrt (\<lambda>a b. fst a < fst b \<and> fst (snd a) \<le> fst b) (accepted_spans spans)
   \<and> redact text (map ispan spans) =
       Inr (concat (splice (gaps text 0 (accepted_spans spans))
                           (map replacement (accepted_spans spans))))
   \<and> (s \<ge> e \<or> s < last_idx \<longrightarrow>
        sweep text ((Some s, Some e, l) # rest) (parts, last_idx)
          = sweep text rest (parts, last_idx))"
proof -
  have c: "chain 0 (accepted_spans spans)"
    by (simp add: accepted_spans_def chain_accepted)
  have 1: "subseq (accepted_spans spans) (sort_key fst spans)"
    by (simp add: accepted_spans_def subseq_accepted)
  have 2: "list_all (\<lambda>(s, e, l). 0 \<le> s \<and> s < e) (accepted_spans spans)"
    using chain_list_all [OF c] by simp
  have 3: "sorted_wrt (\<lambda>a b. fst a < fst b \<and> fst (snd a) \<le> fst b) (accepted_spans spans)"
    by (rule chain_sorted_wrt [OF c])
  show ?thesis using 1 2 3 redact_ispan [of "text" spans] sweep_discard [of e s last_idx "text" l rest parts]
    by blast
qed

theorem accepted_span_invariant_witness:
  "accepted_spans [(3, 8, ''ORG''), (6, 6, ''X''), (0, 5, ''PERSON''), (5, 7, ''GPE'')]
     = [(0, 5, ''PERSON''), (5, 7, ''GPE'')]
   \<and> redact ''Alice Bobson here''
        [(Some 3, Some 8, ''ORG''), (Some 6, Some 6, ''X''), (Some 0, Some 5, ''PERSON''),
         (Some 5, Some 7, ''GPE'')] = Inr ''[PERSON][GPE]obson here''
   \<and> sweep ''Alice Bobson here'' [(Some 3, Some 8, ''ORG'')] ([''[PERSON]''], 5)
       = Inr ([''[PERSON]''], 5)"
proof -
  have a: "accepted_spans [(3, 8, ''ORG''), (6, 6, ''X''), (0, 5, ''PERSON''), (5, 7, ''GPE'')]
     = [(0, 5, ''PERSON''), (5, 7, ''GPE'')]"
    by (simp add: accepted_spans_def)
  have g: "gaps ''Alice Bobson here'' 0 [(0, 5, ''PERSON''), (5, 7, ''GPE'')]
             = [[], [], ''obson here'']"
    by (simp add: py_slice_def py_slice_from_def clamp_index_def)
  have m: "map ispan [(3, 8, ''ORG''), (6, 6, ''X''), (0, 5, ''PERSON''), (5, 7, ''GPE'')]
     = [(Some 3, Some 8, ''ORG''), (Some 6, Some 6, ''X''), (Some 0, Some 5, ''PERSON''),
         (Some 5, Some 7, ''GPE'')]"
    by (simp add: ispan_def)
  note t = accepted_span_invariant
      [of "[(3, 8, ''ORG''), (6, 6, ''X''), (0, 5, ''PERSON''), (5, 7, ''GPE'')]"
          "''Alice Bobson here''" 8 3 5 "''ORG''" "[]" "[''[PERSON]'']", unfolded a g m]
  from t have r: "redact ''Alice Bobson here''
        [(Some 3, Some 8, ''ORG''), (Some 6, Some 6, ''X''), (Some 0, Some 5, ''PERSON''),
         (Some 5, Some 7, ''GPE'')] = Inr ''[PERSON][GPE]obson here''"
    by (simp add: replacement_def)
  from t have w: "sweep ''Alice Bobson here'' [(Some 3, Some 8, ''ORG'')] ([''[PERSON]''], 5)
       = Inr ([''[PERSON]''], 5)"
    by simp
  show ?thesis using a r w by simp
qed

text \<open>
  C3 (overlap scenario), as the claim states it: the output for \<open>"Alice Bobson here"\<close>
  with \<open>A = (0, 5, "PERSON")\<close> and \<open>B = (3, 8, "ORG")\<close> is not \<open>"[PERSON]son here"\<close>.
\<close>

theorem overlap_scenario_counterexample:
  "redact ''Alice Bobson here'' [(Some 0, Some 5, ''PERSON''), (Some 3, Some 8, ''ORG'')]
     \<noteq> Inr ''[PERSON]son here''"
  by code_simp

text \<open>
  C3 (overlap scenario), amended: \<open>A\<close> is kept and \<open>B\<close> is discarded entirely, and the
  output keeps everything of the input after \<open>A\<close>'s end: \<open>"[PERSON] Bobson here"\<close>.
\<close>

theorem overlap_scenario:
  "accepted_spans [(0, 5, ''PERSON''), (3, 8, ''ORG'')] = [(0, 5, ''PERSON'')]
   \<and> redact ''Alice Bobson here'' [(Some 0, Some 5, ''PERSON''), (Some 3, Some 8, ''ORG'')]
       = Inr ''[PERSON] Bobson here''"
  by code_simp

text \<open>
  C9 (empty span list). With an empty span list the redaction pass returns the input
  unchanged, for every input string; so does the whole function when neither the
  primary nor the fallback path yields a span.
\<close>

theorem empty_span_list_identity:
  "result_parts_of text [] = Inr [text] \<and> redact text [] = Inr text
   \<and> (spans_from_doc_ents doc_obj = [] \<and> spans_from_tokens doc_obj = []
        \<longrightarrow> anonymize_with_stanza text doc_obj = Inr text)"
proof -
  have p: "result_parts_of text [] = Inr [text]"
    by (simp add: result_parts_of_def py_sorted_def py_slice_from_def clamp_index_def)
  then have r: "redact text [] = Inr text" by (simp add: redact_def)
  show ?thesis using p r by (simp add: anonymize_with_stanza_def)
qed

theorem empty_span_list_identity_witness:
  "spans_from_doc_ents \<lparr>ents = Some [], sentences = [[\<lparr>start_char = Some 0, end_char = Some 5, ner = Some ''O''\<rparr>]]\<rparr> = []
   \<and> spans_from_tokens \<lparr>ents = Some [], sentences = [[\<lparr>start_char = Some 0, end_char = Some 5, ner = Some ''O''\<rparr>]]\<rparr> = []
   \<and> anonymize_with_stanza ''hello''
        \<lparr>ents = Some [], sentences = [[\<lparr>start_char = Some 0, end_char = Some 5, ner = Some ''O''\<rparr>]]\<rparr>
       = Inr ''hello''"
proof -
  let ?d = "\<lparr>ents = Some [], sentences = [[\<lparr>start_char = Some 0, end_char = Some 5, ner = Some ''O''\<rparr>]]\<rparr>"
  have a: "spans_from_doc_ents ?d = []" by (simp add: spans_from_doc_ents_def)
  have b: "spans_from_tokens ?d = []"
    by (simp add: spans_from_tokens_def sentence_step_def token_step_def ner_tag_of_def
        init_state_def append_if_open_def clear_def is_open_def)
  show ?thesis using empty_span_list_identity [of "''hello''" ?d] a b by simp
qed

section \<open>Totality of the redaction pass\<close>

lemma int_offsets_ispan:
  "list_all has_int_offsets spans \<Longrightarrow> \<exists>xs. spans = map ispan xs"
proof (induction spans)
  case Nil
  then show ?case by simp
next
  case (Cons x spans)
  then obtain xs where xs: "spans = map ispan xs" by auto
  from Cons.prems obtain s e l where "x = (Some s, Some e, l)"
    by (cases x) (auto simp: has_int_offsets_def)
  then have "x # spans = map ispan ((s, e, l) # xs)" by (simp add: xs ispan_def)
  then show ?case by (rule exI [of _ "(s, e, l) # xs"])
qed

text \<open>
  C7 (totality of the redaction pass). For every input string and every list of spans
  whose offsets are integers (any values, any labels), the redaction pass returns a
  string: it does not raise. The functions of the model are total, so the pass
  terminates; the only error of the model, the \<open>TypeError\<close> of a comparison with
  \<open>None\<close>, does not occur on integer offsets.
\<close>

theorem redaction_total:
  "list_all has_int_offsets spans \<Longrightarrow> \<exists>out. redact text spans = Inr out"
proof -
  assume "list_all has_int_offsets spans"
  then obtain xs where "spans = map ispan xs" using int_offsets_ispan by blast
  then show ?thesis by (simp add: redact_ispan)
qed

theorem redaction_total_witness:
  "list_all has_int_offsets [(Some 7, Some 2, ''A''), (Some (- 3), Some 40, ''B''), (Some 1, Some 99, ''C'')]
   \<and> (\<exists>out. redact ''abc'' [(Some 7, Some 2, ''A''), (Some (- 3), Some 40, ''B''), (Some 1, Some 99, ''C'')] = Inr out)"
proof -
  have h: "list_all has_int_offsets
      [(Some 7, Some 2, ''A''), (Some (- 3), Some 40, ''B''), (Some 1, Some 99, ''C'')]"
    by (simp add: has_int_offsets_def)
  show ?thesis using h redaction_total [OF h, of "''abc''"] by simp
qed

section \<open>Claims on the entity extractor\<close>

lemma foldl_ent_step: "foldl ent_step acc es = acc @ concat (map (ent_step []) es)"
proof (induction es arbitrary: acc)
  case Nil
  then show ?case by simp
next
  case (Cons ent es)
  have "ent_step acc ent = acc @ ent_step [] ent"
    by (simp add: ent_step_def split: option.splits)
  then show ?case using Cons.IH [of "ent_step acc ent"] by simp
qed

lemma spans_from_doc_ents_concat:
  "spans_from_doc_ents \<lparr>ents = Some es, sentences = ss\<rparr> = concat (map (ent_step []) es)"
  by (simp add: spans_from_doc_ents_def foldl_ent_step)

text \<open>
  C8 (primary path, one bad record). Each entity record contributes on its own: the
  spans of \<open>xs @ ent # ys\<close> are the spans of \<open>xs\<close>, then what \<open>ent\<close> alone yields, then
  the spans of \<open>ys\<close>. A record one of whose three conversions fails yields nothing, a
  record whose conversions succeed yields its span when \<open>start < end\<close> and nothing
  otherwise; an empty or absent \<open>ents\<close> yields the empty list.
\<close>

theorem primary_path_error_localization:
  "spans_from_doc_ents \<lparr>ents = Some (xs @ ent # ys), sentences = ss\<rparr> =
     spans_from_doc_ents \<lparr>ents = Some xs, sentences = ss\<rparr> @ ent_step [] ent
       @ spans_from_doc_ents \<lparr>ents = Some ys, sentences = ss\<rparr>
   \<and> (int_start_char ent = None \<or> int_end_char ent = None \<or> str_type ent = None
        \<longrightarrow> ent_step [] ent = [])
   \<and> (int_start_char ent = Some s \<and> int_end_char ent = Some e \<and> str_type ent = Some l
        \<longrightarrow> ent_step [] ent = (if s < e then [(Some s, Some e, l)] else []))
   \<and> spans_from_doc_ents \<lparr>ents = Some [], sentences = ss\<rparr> = []
   \<and> spans_from_doc_ents \<lparr>ents = None, sentences = ss\<rparr> = []"
proof -
  have 1: "spans_from_doc_ents \<lparr>ents = Some (xs @ ent # ys), sentences = ss\<rparr> =
     spans_from_doc_ents \<lparr>ents = Some xs, sentences = ss\<rparr> @ ent_step [] ent
       @ spans_from_doc_ents \<lparr>ents = Some ys, sentences = ss\<rparr>"
    by (simp only: spans_from_doc_ents_concat) simp
  have 2: "int_start_char ent = None \<or> int_end_char ent = None \<or> str_type ent = None
        \<longrightarrow> ent_step [] ent = []"
    by (auto simp: ent_step_def split: option.splits)
  have 3: "int_start_char ent = Some s \<and> int_end_char ent = Some e \<and> str_type ent = Some l
        \<longrightarrow> ent_step [] ent = (if s < e then [(Some s, Some e, l)] else [])"
    by (simp add: ent_step_def)
  have 4: "spans_from_doc_ents \<lparr>ents = Some [], sentences = ss\<rparr> = []"
    "spans_from_doc_ents \<lparr>ents = None, sentences = ss\<rparr> = []"
    by (simp_all add: spans_from_doc_ents_def)
  show ?thesis using 1 2 3 4 by blast
qed

theorem primary_path_error_localization_witness:
  "spans_from_doc_ents
     \<lparr>ents = Some ([\<lparr>int_start_char = Some 0, int_end_char = Some 6, str_type = Some ''PERSON''\<rparr>]
         @ \<lparr>int_start_char = Some 7, int_end_char = None, str_type = Some ''ORG''\<rparr>
         # [\<lparr>int_start_char = Some 9, int_end_char = Some 9, str_type = Some ''GPE''\<rparr>,
            \<lparr>int_start_char = Some 12, int_end_char = Some 15, str_type = Some ''DATE''\<rparr>]),
      sentences = []\<rparr>
     = [(Some 0, Some 6, ''PERSON''), (Some 12, Some 15, ''DATE'')]
   \<and> ent_step [] \<lparr>int_start_char = Some 7, int_end_char = None, str_type = Some ''ORG''\<rparr> = []
   \<and> ent_step [] \<lparr>int_start_char = Some 9, int_end_char = Some 9, str_type = Some ''GPE''\<rparr> = []"
proof -
  let ?g1 = "\<lparr>int_start_char = Some 0, int_end_char = Some 6, str_type = Some ''PERSON''\<rparr>"
  let ?bad = "\<lparr>int_start_char = Some 7, int_end_char = None, str_type = Some ''ORG''\<rparr>"
  let ?deg = "\<lparr>int_start_char = Some 9, int_end_char = Some 9, str_type = Some ''GPE''\<rparr>"
  let ?g2 = "\<lparr>int_start_char = Some 12, int_end_char = Some 15, str_type = Some ''DATE''\<rparr>"
  note t1 = primary_path_error_localization [of "[?g1]" ?bad "[?deg, ?g2]" "[]" 7 0 "''ORG''"]
  note t2 = primary_path_error_localization [of "[]" ?deg "[?g2]" "[]" 9 9 "''GPE''"]
  from t1 have b: "ent_step [] ?bad = []" by simp
  from t2 have d: "ent_step [] ?deg = []" by simp
  have l: "spans_from_doc_ents \<lparr>ents = Some [?g1], sentences = []\<rparr> = [(Some 0, Some 6, ''PERSON'')]"
    by (simp add: spans_from_doc_ents_def ent_step_def)
  have r: "spans_from_doc_ents \<lparr>ents = Some [?deg, ?g2], sentences = []\<rparr>
             = [(Some 12, Some 15, ''DATE'')]"
    by (simp add: spans_from_doc_ents_def ent_step_def)
  from t1 have "spans_from_doc_ents \<lparr>ents = Some ([?g1] @ ?bad # [?deg, ?g2]), sentences = []\<rparr>
      = spans_from_doc_ents \<lparr>ents = Some [?g1], sentences = []\<rparr> @ ent_step [] ?bad
          @ spans_from_doc_ents \<lparr>ents = Some [?deg, ?g2], sentences = []\<rparr>"
    by (rule conjunct1)
  then show ?thesis using b d by (simp only: l r) simp
qed

text \<open>
  C4 (fallback reconstruction scenario). On one sentence with the tokens \<open>(0, 6)\<close> tagged
  \<open>B-PERSON\<close>, \<open>(7, 12)\<close> tagged \<open>I-PERSON\<close> and \<open>(13, 20)\<close> tagged \<open>O\<close>, the fallback
  extractor yields the single span \<open>(0, 12, "PERSON")\<close>; redacting
  \<open>"Barack Obama visited."\<close> with it gives \<open>"[PERSON] visited."\<close>, and so does the whole
  function on that document when it has no entity objects.
\<close>

theorem fallback_bio_scenario:
  "spans_from_tokens
     \<lparr>ents = None,
      sentences = [[\<lparr>start_char = Some 0, end_char = Some 6, ner = Some ''B-PERSON''\<rparr>,
                    \<lparr>start_char = Some 7, end_char = Some 12, ner = Some ''I-PERSON''\<rparr>,
                    \<lparr>start_char = Some 13, end_char = Some 20, ner = Some ''O''\<rparr>]]\<rparr>
     = [(Some 0, Some 12, ''PERSON'')]
   \<and> redact ''Barack Obama visited.'' [(Some 0, Some 12, ''PERSON'')] = Inr ''[PERSON] visited.''
   \<and> anonymize_with_stanza ''Barack Obama visited.''
       \<lparr>ents = None,
        sentences = [[\<lparr>start_char = Some 0, end_char = Some 6, ner = Some ''B-PERSON''\<rparr>,
                      \<lparr>start_char = Some 7, end_char = Some 12, ner = Some ''I-PERSON''\<rparr>,
                      \<lparr>start_char = Some 13, end_char = Some 20, ner = Some ''O''\<rparr>]]\<rparr>
     = Inr ''[PERSON] visited.''"
  by code_simp

text \<open>The list of emitted spans only grows: each step of the loops extends it at the end.\<close>

lemma prefix_append_if_open: "prefix (spans_local st) (spans_local (append_if_open st))"
  by (simp add: append_if_open_def split: option.splits)

lemma prefix_append_if_ended: "prefix (spans_local st) (spans_local (append_if_ended st))"
  by (simp add: append_if_ended_def split: option.splits)

lemma spans_local_clear: "spans_local (clear st) = spans_local st"
  by (simp add: clear_def)

lemma prefix_token_step: "prefix (spans_local st) (spans_local (token_step st tok))"
proof -
  have a: "prefix (spans_local st) (spans_local (append_if_open
      ((append_if_open st)\<lparr>cur_start := a, cur_end := b, cur_type := c\<rparr>)))" for a b c
    using prefix_append_if_open [of "(append_if_open st)\<lparr>cur_start := a, cur_end := b, cur_type := c\<rparr>"]
      prefix_append_if_open [of st]
    by (auto elim: prefix_order.trans)
  have b: "prefix (spans_local st) (spans_local (append_if_ended (st\<lparr>cur_end := e\<rparr>)))" for e
    using prefix_append_if_ended [of "st\<lparr>cur_end := e\<rparr>"] by simp
  show ?thesis
    by (simp add: token_step_def Let_def spans_local_clear prefix_append_if_open a b)
qed

lemma prefix_foldl_token_step:
  "prefix (spans_local st) (spans_local (foldl token_step st toks))"
proof (induction toks arbitrary: st)
  case Nil
  then show ?case by simp
next
  case (Cons tok toks)
  show ?case
    using prefix_token_step [of st tok] Cons.IH [of "token_step st tok"]
    by (auto elim: prefix_order.trans)
qed

lemma prefix_sentence_end:
  "prefix (spans_local (foldl token_step st sent)) (spans_local (sentence_step st sent))"
  by (simp add: sentence_step_def Let_def spans_local_clear prefix_append_if_open)

lemma prefix_foldl_sentence_step:
  "prefix (spans_local st) (spans_local (foldl sentence_step st ss))"
proof (induction ss arbitrary: st)
  case Nil
  then show ?case by simp
next
  case (Cons sent ss)
  have "prefix (spans_local st) (spans_local (sentence_step st sent))"
    using prefix_foldl_token_step [of st sent] prefix_sentence_end [of st sent]
    by (auto elim: prefix_order.trans)
  then show ?case
    using Cons.IH [of "sentence_step st sent"] by (auto elim: prefix_order.trans)
qed

lemma prefix_after_token:
  "prefix (spans_local (token_step (foldl token_step (foldl sentence_step init_state ss) xs) tok))
     (spans_from_tokens \<lparr>ents = es, sentences = ss @ (xs @ tok # ys) # ss'\<rparr>)"
proof -
  let ?s0 = "foldl sentence_step init_state ss"
  let ?st = "token_step (foldl token_step ?s0 xs) tok"
  have 1: "prefix (spans_local ?st) (spans_local (foldl token_step ?s0 (xs @ tok # ys)))"
    using prefix_foldl_token_step [of ?st ys] by simp
  have 2: "prefix (spans_local (foldl token_step ?s0 (xs @ tok # ys)))
             (spans_local (sentence_step ?s0 (xs @ tok # ys)))"
    by (rule prefix_sentence_end)
  have 3: "prefix (spans_local (sentence_step ?s0 (xs @ tok # ys)))
             (spans_local (foldl sentence_step (sentence_step ?s0 (xs @ tok # ys)) ss'))"
    by (rule prefix_foldl_sentence_step)
  have 4: "spans_from_tokens \<lparr>ents = es, sentences = ss @ (xs @ tok # ys) # ss'\<rparr>
             = spans_local (foldl sentence_step (sentence_step ?s0 (xs @ tok # ys)) ss')"
    by (simp add: spans_from_tokens_def)
  show ?thesis
    using 1 2 3 unfolding 4 by (blast intro: prefix_order.trans)
qed

lemma token_step_malformed:
  "ner_tag_of tok \<noteq> ''O'' \<Longrightarrow> prefix_of (ner_tag_of tok) \<in> set [''I'', ''E'', ''L''] \<Longrightarrow>
   cur_start st = None \<or> cur_type st \<noteq> Some (ent_type_of (ner_tag_of tok)) \<Longrightarrow>
   token_step st tok =
     st\<lparr>spans_local :=
          spans_local st @ [(start_char tok, end_char tok, ent_type_of (ner_tag_of tok))],
        cur_start := None, cur_end := None, cur_type := None\<rparr>"
  by (auto simp: token_step_def Let_def clear_def)

text \<open>
  C5 (malformed continuation). A token whose tag is not \<open>O\<close> and has prefix \<open>I\<close>, \<open>E\<close> or
  \<open>L\<close>, met when no span is open (no start is recorded) or when the open span's type is
  not the token's type, makes the extractor append the one-token span of the token's own
  \<open>start_char\<close>, \<open>end_char\<close> and type, and clear the open-span state. When the token is
  met in a document, in any sentence and at any place in it, the list the extractor
  returns begins with the spans emitted before the token followed by that one-token
  span: the span is in the result, whatever tokens and sentences follow. The tags \<open>O\<close>,
  \<open>I-PERSON\<close> with the second token at \<open>(4, 9)\<close> yield the span \<open>(4, 9, "PERSON")\<close>.
\<close>

theorem malformed_continuation:
  "(ner_tag_of tok \<noteq> ''O'' \<and> prefix_of (ner_tag_of tok) \<in> set [''I'', ''E'', ''L'']
     \<and> (cur_start st = None \<or> cur_type st \<noteq> Some (ent_type_of (ner_tag_of tok)))
    \<longrightarrow> token_step st tok =
          st\<lparr>spans_local :=
               spans_local st @ [(start_char tok, end_char tok, ent_type_of (ner_tag_of tok))],
             cur_start := None, cur_end := None, cur_type := None\<rparr>
        \<and> (st = foldl token_step (foldl sentence_step init_state ss) xs \<longrightarrow>
             prefix (spans_local st @ [(start_char tok, end_char tok, ent_type_of (ner_tag_of tok))])
               (spans_from_tokens \<lparr>ents = es, sentences = ss @ (xs @ tok # ys) # ss'\<rparr>)
             \<and> (start_char tok, end_char tok, ent_type_of (ner_tag_of tok))
                 \<in> set (spans_from_tokens \<lparr>ents = es, sentences = ss @ (xs @ tok # ys) # ss'\<rparr>)))
   \<and> spans_from_tokens
       \<lparr>ents = None,
        sentences = [[\<lparr>start_char = Some 0, end_char = Some 3, ner = Some ''O''\<rparr>,
                      \<lparr>start_char = Some 4, end_char = Some 9, ner = Some ''I-PERSON''\<rparr>]]\<rparr>
       = [(Some 4, Some 9, ''PERSON'')]"
proof -
  let ?span = "(start_char tok, end_char tok, ent_type_of (ner_tag_of tok))"
  let ?doc = "\<lparr>ents = es, sentences = ss @ (xs @ tok # ys) # ss'\<rparr>"
  have 1: "token_step st tok =
          st\<lparr>spans_local := spans_local st @ [?span],
             cur_start := None, cur_end := None, cur_type := None\<rparr>
        \<and> (st = foldl token_step (foldl sentence_step init_state ss) xs \<longrightarrow>
             prefix (spans_local st @ [?span]) (spans_from_tokens ?doc)
             \<and> ?span \<in> set (spans_from_tokens ?doc))"
    if h: "ner_tag_of tok \<noteq> ''O'' \<and> prefix_of (ner_tag_of tok) \<in> set [''I'', ''E'', ''L'']
     \<and> (cur_start st = None \<or> cur_type st \<noteq> Some (ent_type_of (ner_tag_of tok)))"
  proof -
    have t: "token_step st tok =
          st\<lparr>spans_local := spans_local st @ [?span],
             cur_start := None, cur_end := None, cur_type := None\<rparr>"
      using h token_step_malformed [of tok st] by blast
    have p: "prefix (spans_local st @ [?span]) (spans_from_tokens ?doc)"
      if e: "st = foldl token_step (foldl sentence_step init_state ss) xs"
    proof -
      have "prefix (spans_local (token_step st tok)) (spans_from_tokens ?doc)"
        unfolding e by (rule prefix_after_token)
      then show ?thesis by (simp add: t)
    qed
    have m: "?span \<in> set (spans_from_tokens ?doc)"
      if e: "st = foldl token_step (foldl sentence_step init_state ss) xs"
      using set_mono_prefix [OF p [OF e]] by auto
    show ?thesis using t p m by blast
  qed
  have 2: "spans_from_tokens
       \<lparr>ents = None,
        sentences = [[\<lparr>start_char = Some 0, end_char = Some 3, ner = Some ''O''\<rparr>,
                      \<lparr>start_char = Some 4, end_char = Some 9, ner = Some ''I-PERSON''\<rparr>]]\<rparr>
       = [(Some 4, Some 9, ''PERSON'')]"
    by code_simp
  show ?thesis using 1 2 by blast
qed

theorem malformed_continuation_witness:
  "prefix [(Some 0, Some 5, ''GPE''), (Some 10, Some 15, ''PERSON'')]
     (spans_from_tokens
        \<lparr>ents = None,
         sentences = [[\<lparr>start_char = Some 0, end_char = Some 5, ner = Some ''S-GPE''\<rparr>]]
           @ ([\<lparr>start_char = Some 6, end_char = Some 9, ner = Some ''B-ORG''\<rparr>]
               @ \<lparr>start_char = Some 10, end_char = Some 15, ner = Some ''E-PERSON''\<rparr>
               # [\<lparr>start_char = Some 16, end_char = Some 18, ner = Some ''O''\<rparr>])
           # [[\<lparr>start_char = Some 20, end_char = Some 25, ner = Some ''B-LOC''\<rparr>]]\<rparr>)
   \<and> prefix [(Some 0, Some 5, ''GPE''), (Some 10, Some 15, ''PERSON'')]
     (spans_from_tokens
        \<lparr>ents = None,
         sentences = [[\<lparr>start_char = Some 0, end_char = Some 5, ner = Some ''S-GPE''\<rparr>]]
           @ ([\<lparr>start_char = Some 6, end_char = Some 9, ner = Some ''O''\<rparr>]
               @ \<lparr>start_char = Some 10, end_char = Some 15, ner = Some ''I-PERSON''\<rparr>
               # [])
           # [[\<lparr>start_char = Some 20, end_char = Some 25, ner = Some ''B-LOC''\<rparr>]]\<rparr>)
   \<and> token_step
        \<lparr>spans_local = [(Some 0, Some 5, ''GPE'')], cur_start = Some 6, cur_end = Some 9,
         cur_type = Some ''ORG''\<rparr>
        \<lparr>start_char = Some 10, end_char = Some 15, ner = Some ''E-PERSON''\<rparr>
       = \<lparr>spans_local = [(Some 0, Some 5, ''GPE''), (Some 10, Some 15, ''PERSON'')],
          cur_start = None, cur_end = None, cur_type = None\<rparr>"
proof -
  let ?ss = "[[\<lparr>start_char = Some 0, end_char = Some 5, ner = Some ''S-GPE''\<rparr>]]"
  let ?ss' = "[[\<lparr>start_char = Some 20, end_char = Some 25, ner = Some ''B-LOC''\<rparr>]]"
  let ?xs1 = "[\<lparr>start_char = Some 6, end_char = Some 9, ner = Some ''B-ORG''\<rparr>]"
  let ?xs2 = "[\<lparr>start_char = Some 6, end_char = Some 9, ner = Some ''O''\<rparr>]"
  let ?t1 = "\<lparr>start_char = Some 10, end_char = Some 15, ner = Some ''E-PERSON''\<rparr>"
  let ?t2 = "\<lparr>start_char = Some 10, end_char = Some 15, ner = Some ''I-PERSON''\<rparr>"
  let ?ys1 = "[\<lparr>start_char = Some 16, end_char = Some 18, ner = Some ''O''\<rparr>]"
  let ?s1 = "\<lparr>spans_local = [(Some 0, Some 5, ''GPE'')], cur_start = Some 6, cur_end = Some 9,
         cur_type = Some ''ORG''\<rparr>"
  let ?s2 = "\<lparr>spans_local = [(Some 0, Some 5, ''GPE'')], cur_start = None, cur_end = None,
         cur_type = None\<rparr>"
  have r1: "foldl token_step (foldl sentence_step init_state ?ss) ?xs1 = ?s1"
    by code_simp
  have r2: "foldl token_step (foldl sentence_step init_state ?ss) ?xs2 = ?s2"
    by code_simp
  have n: "ner_tag_of ?t1 = ''E-PERSON''" "ner_tag_of ?t2 = ''I-PERSON''"
    by (simp_all add: ner_tag_of_def)
  have p: "prefix_of ''I-PERSON'' = ''I''" "prefix_of ''E-PERSON'' = ''E''"
    "ent_type_of ''I-PERSON'' = ''PERSON''" "ent_type_of ''E-PERSON'' = ''PERSON''"
    by (simp_all add: prefix_of_def ent_type_of_def)
  have h1: "ner_tag_of ?t1 \<noteq> ''O'' \<and> prefix_of (ner_tag_of ?t1) \<in> set [''I'', ''E'', ''L'']
     \<and> (cur_start ?s1 = None \<or> cur_type ?s1 \<noteq> Some (ent_type_of (ner_tag_of ?t1)))"
    by (simp add: n p)
  have h2: "ner_tag_of ?t2 \<noteq> ''O'' \<and> prefix_of (ner_tag_of ?t2) \<in> set [''I'', ''E'', ''L'']
     \<and> (cur_start ?s2 = None \<or> cur_type ?s2 \<noteq> Some (ent_type_of (ner_tag_of ?t2)))"
    by (simp add: n p)
  note w1 = mp [OF conjunct1 [OF malformed_continuation [of ?t1 ?s1 ?ss ?xs1 None ?ys1 ?ss']] h1]
  note w2 = mp [OF conjunct1 [OF malformed_continuation [of ?t2 ?s2 ?ss ?xs2 None "[]" ?ss']] h2]
  note e1 = conjunct1 [OF mp [OF conjunct2 [OF w1] r1 [symmetric]]]
  note e2 = conjunct1 [OF mp [OF conjunct2 [OF w2] r2 [symmetric]]]
  from e1 have a: "prefix [(Some 0, Some 5, ''GPE''), (Some 10, Some 15, ''PERSON'')]
     (spans_from_tokens \<lparr>ents = None, sentences = ?ss @ (?xs1 @ ?t1 # ?ys1) # ?ss'\<rparr>)"
    by (simp add: n p)
  from e2 have b: "prefix [(Some 0, Some 5, ''GPE''), (Some 10, Some 15, ''PERSON'')]
     (spans_from_tokens \<lparr>ents = None, sentences = ?ss @ (?xs2 @ ?t2 # []) # ?ss'\<rparr>)"
    by (simp add: n p)
  from conjunct1 [OF w1] have c: "token_step ?s1 ?t1
       = \<lparr>spans_local = [(Some 0, Some 5, ''GPE''), (Some 10, Some 15, ''PERSON'')],
          cur_start = None, cur_end = None, cur_type = None\<rparr>"
    by (simp add: n p)
  show ?thesis using a b c by (intro conjI)
qed

text \<open>
  C10 (unknown prefix). A token whose tag is not \<open>O\<close> and whose first component is none
  of \<open>B\<close>, \<open>S\<close>, \<open>U\<close>, \<open>I\<close>, \<open>E\<close>, \<open>L\<close> leaves the whole state of the token loop as it
  was: the spans emitted so far and the open span. A sentence with such a token gives
  the same spans as the sentence without it.
\<close>

theorem unknown_prefix_ignored:
  "ner_tag_of tok \<noteq> ''O'' \<Longrightarrow>
   prefix_of (ner_tag_of tok) \<notin> set [''B'', ''S'', ''U'', ''I'', ''E'', ''L''] \<Longrightarrow>
   token_step st tok = st
   \<and> foldl token_step st0 (xs @ tok # ys) = foldl token_step st0 (xs @ ys)
   \<and> spans_from_tokens \<lparr>ents = es, sentences = ss @ (xs @ tok # ys) # ss'\<rparr>
       = spans_from_tokens \<lparr>ents = es, sentences = ss @ (xs @ ys) # ss'\<rparr>"
proof -
  assume a: "ner_tag_of tok \<noteq> ''O''"
    and b: "prefix_of (ner_tag_of tok) \<notin> set [''B'', ''S'', ''U'', ''I'', ''E'', ''L'']"
  have 1: "token_step s tok = s" for s
    using a b by (simp add: token_step_def Let_def)
  have 2: "foldl token_step s (xs @ tok # ys) = foldl token_step s (xs @ ys)" for s
    by (simp add: 1)
  have 3: "sentence_step s (xs @ tok # ys) = sentence_step s (xs @ ys)" for s
    by (simp only: sentence_step_def 2)
  have 4: "spans_from_tokens \<lparr>ents = es, sentences = ss @ (xs @ tok # ys) # ss'\<rparr>
       = spans_from_tokens \<lparr>ents = es, sentences = ss @ (xs @ ys) # ss'\<rparr>"
    by (simp add: spans_from_tokens_def 3)
  show ?thesis using 1 2 4 by blast
qed

theorem unknown_prefix_ignored_witness:
  "ner_tag_of \<lparr>start_char = Some 7, end_char = Some 9, ner = Some ''X-PERSON''\<rparr> \<noteq> ''O''
   \<and> prefix_of (ner_tag_of \<lparr>start_char = Some 7, end_char = Some 9, ner = Some ''X-PERSON''\<rparr>)
        \<notin> set [''B'', ''S'', ''U'', ''I'', ''E'', ''L'']
   \<and> token_step \<lparr>spans_local = [], cur_start = Some 0, cur_end = Some 6, cur_type = Some ''PERSON''\<rparr>
        \<lparr>start_char = Some 7, end_char = Some 9, ner = Some ''X-PERSON''\<rparr>
       = \<lparr>spans_local = [], cur_start = Some 0, cur_end = Some 6, cur_type = Some ''PERSON''\<rparr>"
proof -
  let ?t = "\<lparr>start_char = Some 7, end_char = Some 9, ner = Some ''X-PERSON''\<rparr>"
  let ?s = "\<lparr>spans_local = [], cur_start = Some 0, cur_end = Some 6, cur_type = Some ''PERSON''\<rparr>"
  have n: "ner_tag_of ?t = ''X-PERSON''" by (simp add: ner_tag_of_def)
  have a: "ner_tag_of ?t \<noteq> ''O''" by (simp add: n)
  have b: "prefix_of (ner_tag_of ?t) \<notin> set [''B'', ''S'', ''U'', ''I'', ''E'', ''L'']"
    by (simp add: n prefix_of_def)
  have "token_step ?s ?t = ?s"
    using unknown_prefix_ignored [OF a b, of ?s] by (rule conjunct1)
  then show ?thesis using a b by simp
qed

section \<open>Emitted spans and \<open>start < end\<close>\<close>

lemma proper_span_ent_step:
  "list_all proper_span acc \<Longrightarrow> list_all proper_span (ent_step acc ent)"
  by (simp add: ent_step_def proper_span_def split: option.splits)

lemma proper_span_foldl_ent_step:
  "list_all proper_span acc \<Longrightarrow> list_all proper_span (foldl ent_step acc es)"
  by (induction es arbitrary: acc) (simp_all add: proper_span_ent_step)

lemma proper_span_doc_ents: "list_all proper_span (spans_from_doc_ents doc_obj)"
  by (simp add: spans_from_doc_ents_def proper_span_foldl_ent_step split: option.splits)

lemma state_ok_clear_open: "state_ok st \<Longrightarrow> state_ok (clear (append_if_open st))"
  by (auto simp: state_ok_def clear_def append_if_open_def proper_span_def split: option.splits)

lemma cur_clear: "cur_start (clear st) = None"
  by (simp add: clear_def)

lemma token_step_ok:
  assumes "state_ok st" "token_ok tok" "start_bound st (start_of tok)"
  shows "state_ok (token_step st tok)"
    and "start_of tok \<le> b \<Longrightarrow> start_bound (token_step st tok) b"
  using assms
  by (auto simp: token_step_def Let_def state_ok_def start_bound_def token_ok_def start_of_def
      append_if_open_def append_if_ended_def clear_def proper_span_def split: option.splits)

lemma foldl_token_step_ok:
  "state_ok st \<Longrightarrow> list_all token_ok toks \<Longrightarrow> sorted (map start_of toks) \<Longrightarrow>
   list_all (\<lambda>tok. start_bound st (start_of tok)) toks \<Longrightarrow>
   state_ok (foldl token_step st toks)"
proof (induction toks arbitrary: st)
  case Nil
  then show ?case by simp
next
  case (Cons tok toks)
  have ok: "state_ok (token_step st tok)"
    using token_step_ok(1) Cons.prems by simp
  have "list_all (\<lambda>t. start_bound (token_step st tok) (start_of t)) toks"
    using token_step_ok(2) [of st tok] Cons.prems by (auto simp: list_all_iff)
  then show ?case using Cons.IH [OF ok] Cons.prems by simp
qed

lemma sentence_step_ok:
  assumes "state_ok st" "cur_start st = None" "sentence_ok sent"
  shows "state_ok (sentence_step st sent) \<and> cur_start (sentence_step st sent) = None"
proof -
  have b: "list_all (\<lambda>tok. start_bound st (start_of tok)) sent"
    using assms(2) by (simp add: start_bound_def list_all_iff)
  have ok: "state_ok (foldl token_step st sent)"
    using foldl_token_step_ok [OF assms(1) _ _ b] assms(3) by (simp add: sentence_ok_def)
  show ?thesis
  proof (cases "is_open (foldl token_step st sent)")
    case True
    then show ?thesis using state_ok_clear_open [OF ok] by (simp add: sentence_step_def cur_clear)
  next
    case False
    then have "cur_start (foldl token_step st sent) = None"
      using ok by (auto simp: is_open_def state_ok_def split: option.splits)
    then show ?thesis using ok False by (simp add: sentence_step_def)
  qed
qed

lemma foldl_sentence_step_ok:
  "state_ok st \<Longrightarrow> cur_start st = None \<Longrightarrow> list_all sentence_ok ss \<Longrightarrow>
   state_ok (foldl sentence_step st ss)"
proof (induction ss arbitrary: st)
  case Nil
  then show ?case by simp
next
  case (Cons sent ss)
  then show ?case using sentence_step_ok [of st sent] by simp
qed

lemma proper_span_tokens:
  "list_all sentence_ok (sentences doc_obj) \<Longrightarrow> list_all proper_span (spans_from_tokens doc_obj)"
proof -
  assume a: "list_all sentence_ok (sentences doc_obj)"
  have i: "state_ok init_state" "cur_start init_state = None"
    by (simp_all add: state_ok_def init_state_def)
  show ?thesis
    using foldl_sentence_step_ok [OF i a] by (simp add: spans_from_tokens_def state_ok_def)
qed

text \<open>
  C6 (every emitted span has \<open>start < end\<close>), as the claim states it, fails on the
  fallback path: a token with offsets \<open>(5, 5)\<close> tagged \<open>S-GPE\<close> makes it emit the span
  \<open>(5, 5, "GPE")\<close>.
\<close>

theorem fallback_degenerate_span_counterexample:
  "\<not> list_all proper_span
       (spans_from_tokens
          \<lparr>ents = None,
           sentences = [[\<lparr>start_char = Some 5, end_char = Some 5, ner = Some ''S-GPE''\<rparr>]]\<rparr>)"
  by code_simp

text \<open>
  C6, amended. Every span emitted on the primary path has \<open>start < end\<close>. The fallback
  path copies the tokens' offsets unchecked; every span it emits has integer offsets and
  \<open>start < end\<close> when every token has integer offsets with \<open>start_char < end_char\<close> and
  the tokens of each sentence come in non-decreasing order of \<open>start_char\<close>.
\<close>

theorem emitted_spans_proper:
  "list_all proper_span (spans_from_doc_ents doc_obj)
   \<and> (list_all sentence_ok (sentences doc_obj)
        \<longrightarrow> list_all proper_span (spans_from_tokens doc_obj))"
  using proper_span_doc_ents proper_span_tokens by blast

theorem emitted_spans_proper_witness:
  "list_all sentence_ok
     [[\<lparr>start_char = Some 0, end_char = Some 6, ner = Some ''B-PERSON''\<rparr>,
       \<lparr>start_char = Some 7, end_char = Some 12, ner = Some ''I-PERSON''\<rparr>,
       \<lparr>start_char = Some 13, end_char = Some 20, ner = Some ''O''\<rparr>,
       \<lparr>start_char = Some 21, end_char = Some 26, ner = Some ''E-GPE''\<rparr>]]
   \<and> list_all proper_span
       (spans_from_tokens
         \<lparr>ents = None,
          sentences =
            [[\<lparr>start_char = Some 0, end_char = Some 6, ner = Some ''B-PERSON''\<rparr>,
              \<lparr>start_char = Some 7, end_char = Some 12, ner = Some ''I-PERSON''\<rparr>,
              \<lparr>start_char = Some 13, end_char = Some 20, ner = Some ''O''\<rparr>,
              \<lparr>start_char = Some 21, end_char = Some 26, ner = Some ''E-GPE''\<rparr>]]\<rparr>)"
proof -
  let ?ss = "[[\<lparr>start_char = Some 0, end_char = Some 6, ner = Some ''B-PERSON''\<rparr>,
       \<lparr>start_char = Some 7, end_char = Some 12, ner = Some ''I-PERSON''\<rparr>,
       \<lparr>start_char = Some 13, end_char = Some 20, ner = Some ''O''\<rparr>,
       \<lparr>start_char = Some 21, end_char = Some 26, ner = Some ''E-GPE''\<rparr>]]"
  have h: "list_all sentence_ok ?ss"
    by (simp add: sentence_ok_def token_ok_def start_of_def)
  show ?thesis
    using h emitted_spans_proper [of "\<lparr>ents = None, sentences = ?ss\<rparr>"] by simp
qed

end
